theory Spec2Isabelle
  imports Complex_Main
begin

unbundle bit_operations_syntax

section \<open>Python values used by the driver\<close>

text \<open>
  The driver \<^verbatim>\<open>adafruit_dotstar.py\<close> keeps one \<^verbatim>\<open>bytearray\<close> and updates it by
  index. The model follows CPython: an index below zero counts from the end, an index
  outside the array raises \<^verbatim>\<open>IndexError\<close>, and a stored value outside 0..255 raises
  \<^verbatim>\<open>ValueError\<close> (the value is converted before the index is looked at). Python's
  unbounded integers are \<^typ>\<open>int\<close>; Python's floats are modelled by \<^typ>\<open>real\<close>, that
  is with exact arithmetic, which is what the float operations of the driver compute
  whenever their operands and results are representable (dyadic brightness values such
  as 0.5 or 0.75 and byte-sized integers).
\<close>

datatype error = IndexError | ValueError | TypeError | ZeroDivisionError

type_synonym bytearray = "int list"

definition bytearray_new :: "int \<Rightarrow> error + bytearray" where
  "bytearray_new k = (if k < 0 then Inl ValueError else Inr (replicate (nat k) 0))"

definition bytearray_get :: "bytearray \<Rightarrow> int \<Rightarrow> error + int" where
  "bytearray_get b i =
     (let j = (if i < 0 then i + int (length b) else i)
      in if 0 \<le> j \<and> j < int (length b) then Inr (b ! nat j) else Inl IndexError)"

definition bytearray_set :: "bytearray \<Rightarrow> int \<Rightarrow> int \<Rightarrow> error + bytearray" where
  "bytearray_set b i v =
     (if v < 0 \<or> 255 < v then Inl ValueError
      else let j = (if i < 0 then i + int (length b) else i)
           in if 0 \<le> j \<and> j < int (length b) then Inr (b[nat j := v]) else Inl IndexError)"

text \<open>\<^verbatim>\<open>range(start, stop, step)\<close> as the list of the values it yields. Python refuses
  a zero step; the driver never passes one, and the model yields the empty list there.\<close>

function py_range :: "int \<Rightarrow> int \<Rightarrow> int \<Rightarrow> int list" where
  "py_range start stop step =
     (if (0 < step \<and> start < stop) \<or> (step < 0 \<and> stop < start)
      then start # py_range (start + step) stop step
      else [])"
  by pat_completeness auto
termination
  by (relation "measure (\<lambda>(start, stop, step). nat (if 0 < step then stop - start else start - stop))")
     auto

declare py_range.simps [simp del]

text \<open>\<^verbatim>\<open>int(x)\<close> on a float: truncation toward zero.\<close>

definition py_int :: "real \<Rightarrow> int" where
  "py_int x = (if 0 \<le> x then \<lfloor>x\<rfloor> else \<lceil>x\<rceil>)"

text \<open>\<^verbatim>\<open>slice(start, stop, step).indices(len)\<close>; a missing component is \<open>None\<close>.\<close>

definition slice_indices :: "int option \<times> int option \<times> int option \<Rightarrow> int \<Rightarrow> error + (int \<times> int \<times> int)" where
  "slice_indices sl len =
     (case sl of (start, stop, step) \<Rightarrow>
        let st = (case step of None \<Rightarrow> 1 | Some k \<Rightarrow> k)
        in if len < 0 \<or> st = 0 then Inl ValueError
           else
             let lower = (if st < 0 then - 1 else 0);
                 upper = (if st < 0 then len - 1 else len);
                 a = (case start of
                        None \<Rightarrow> (if st < 0 then upper else lower)
                      | Some v \<Rightarrow> (if v < 0 then max (v + len) lower else min v upper));
                 b = (case stop of
                        None \<Rightarrow> (if st < 0 then lower else upper)
                      | Some v \<Rightarrow> (if v < 0 then max (v + len) lower else min v upper))
             in Inr (a, b, st))"

text \<open>A loop \<^verbatim>\<open>for i in ...: buf[i] = v\<close>: the stores in order, stopping at the first
  one that raises.\<close>

fun store_each :: "bytearray \<Rightarrow> int list \<Rightarrow> int \<Rightarrow> error + bytearray" where
  "store_each b [] v = Inr b"
| "store_each b (i # rest) v =
     (case bytearray_set b i v of Inl e \<Rightarrow> Inl e | Inr b' \<Rightarrow> store_each b' rest v)"

section \<open>Module constants\<close>

definition START_HEADER_SIZE :: int where
  "START_HEADER_SIZE = 4"

definition LED_START :: int where
  "LED_START = 224"

definition RGB :: "nat \<times> nat \<times> nat" where "RGB = (0, 1, 2)"
definition RBG :: "nat \<times> nat \<times> nat" where "RBG = (0, 2, 1)"
definition GRB :: "nat \<times> nat \<times> nat" where "GRB = (1, 0, 2)"
definition GBR :: "nat \<times> nat \<times> nat" where "GBR = (1, 2, 0)"
definition BRG :: "nat \<times> nat \<times> nat" where "BRG = (2, 0, 1)"
definition BGR :: "nat \<times> nat \<times> nat" where "BGR = (2, 1, 0)"

section \<open>The strip\<close>

text \<open>The two output lines of the bit-banged path, as the levels last written to them.\<close>

record wire =
  cpin :: bool
  dpin :: bool

text \<open>The attributes of a \<^verbatim>\<open>DotStar\<close> object. \<open>self_spi\<close> tells whether the hardware
  SPI peripheral was acquired (\<^verbatim>\<open>self._spi\<close> is truthy); otherwise the two pins are used.\<close>

record DotStar =
  self_spi :: bool
  self_line :: int
  self_n :: int
  end_header_size :: int
  end_header_index :: int
  self_buf :: bytearray
  pixel_order :: "nat \<times> nat \<times> nat"
  self_brightness :: real
  auto_write :: bool
  pins :: wire

text \<open>A method that mutates the strip returns the strip it leaves behind; when it
  raises, the error comes with the strip as it is at that moment, since stores made
  before the exception stay made.\<close>

type_synonym outcome = "(error \<times> DotStar) + DotStar"

fun outcome_state :: "outcome \<Rightarrow> DotStar" where
  "outcome_state (Inl (e, s)) = s"
| "outcome_state (Inr s) = s"

subsection \<open>Construction\<close>

text \<open>One pass of the loop over \<open>j\<close> in \<^verbatim>\<open>__init__\<close> (source lines 110 to 118).\<close>

definition init_line :: "int \<Rightarrow> int \<Rightarrow> int \<Rightarrow> bytearray \<Rightarrow> int \<Rightarrow> error + bytearray" where
  "init_line n ehi ehs b j =
     (case store_each b (map (\<lambda>i. j * n + i) (py_range 0 START_HEADER_SIZE 1)) 0 of
        Inl e \<Rightarrow> Inl e
      | Inr b1 \<Rightarrow>
          (case store_each b1 (map (\<lambda>i. j * n + i) (py_range START_HEADER_SIZE ehi 4)) 255 of
             Inl e \<Rightarrow> Inl e
           | Inr b2 \<Rightarrow> store_each b2 (map (\<lambda>i. j * n + i) (py_range ehi (ehi + ehs) 1)) 255))"

fun init_lines :: "int \<Rightarrow> int \<Rightarrow> int \<Rightarrow> bytearray \<Rightarrow> int list \<Rightarrow> error + bytearray" where
  "init_lines n ehi ehs b [] = Inr b"
| "init_lines n ehi ehs b (j # js) =
     (case init_line n ehi ehs b j of Inl e \<Rightarrow> Inl e | Inr b' \<Rightarrow> init_lines n ehi ehs b' js)"

text \<open>\<^verbatim>\<open>__init__(clock, data, n, line, brightness, auto_write, pixel_order)\<close>. The first
  argument of the model says whether \<^verbatim>\<open>busio.SPI\<close> could be set up; pin and peripheral
  acquisition themselves are outside the driver. The brightness setter clamps to [0, 1]
  and, \<open>auto_write\<close> being off during construction, shows nothing.\<close>

definition DotStar_init ::
  "bool \<Rightarrow> int \<Rightarrow> int \<Rightarrow> real \<Rightarrow> bool \<Rightarrow> nat \<times> nat \<times> nat \<Rightarrow> error + DotStar" where
  "DotStar_init spi_ok n line brightness auto po =
     (let ehs = (if n mod 16 \<noteq> 0 then n div 16 + 1 else n div 16)
      in case bytearray_new (line * n * 4 + line * START_HEADER_SIZE + line * ehs) of
           Inl e \<Rightarrow> Inl e
         | Inr b \<Rightarrow>
             let ehi = START_HEADER_SIZE + n * 4 - ehs
             in (case init_lines n ehi ehs b (py_range 0 line 1) of
                   Inl e \<Rightarrow> Inl e
                 | Inr b' \<Rightarrow>
                     Inr \<lparr>self_spi = spi_ok, self_line = line, self_n = n,
                          end_header_size = ehs, end_header_index = ehi, self_buf = b',
                          pixel_order = po, self_brightness = min (max brightness 0) 1,
                          auto_write = auto, pins = \<lparr>cpin = False, dpin = False\<rparr>\<rparr>))"

subsection \<open>Writing and reading a pixel\<close>

text \<open>The value given to a pixel write: a packed integer \<^verbatim>\<open>0xRRGGBB\<close>, a tuple
  \<^verbatim>\<open>(r, g, b)\<close>, or a tuple \<^verbatim>\<open>(r, g, b, brightness)\<close>.\<close>

datatype color = Packed int | Triple int int int | Quad int int int real

fun rgb_of :: "color \<Rightarrow> int list" where
  "rgb_of (Packed v) = [drop_bit 16 v, drop_bit 8 v AND 255, v AND 255]"
| "rgb_of (Triple r g b) = [r, g, b]"
| "rgb_of (Quad r g b p) = [r, g, b]"

fun brightness_of :: "color \<Rightarrow> real" where
  "brightness_of (Quad r g b p) = p"
| "brightness_of c = 1"

text \<open>\<^verbatim>\<open>rgb[k]\<close> as a byte to store: entry 3 of a four-tuple is the float, which a
  bytearray refuses with \<^verbatim>\<open>TypeError\<close>; any other entry beyond the tuple raises
  \<^verbatim>\<open>IndexError\<close>.\<close>

fun rgb_item :: "color \<Rightarrow> nat \<Rightarrow> error + int" where
  "rgb_item c k =
     (if k < 3 then Inr (rgb_of c ! k)
      else (case c of Quad r g b p \<Rightarrow> (if k = 3 then Inl TypeError else Inl IndexError)
                    | _ \<Rightarrow> Inl IndexError))"

definition store_item :: "bytearray \<Rightarrow> int \<Rightarrow> color \<Rightarrow> nat \<Rightarrow> error + bytearray" where
  "store_item b i c k = (case rgb_item c k of Inl e \<Rightarrow> Inl e | Inr v \<Rightarrow> bytearray_set b i v)"

text \<open>Source line 184: \<^verbatim>\<open>32 - int(32 - brightness * 31) & 0b00011111\<close>, where \<^verbatim>\<open>&\<close>
  binds weaker than \<^verbatim>\<open>-\<close>.\<close>

definition brightness_byte :: "real \<Rightarrow> int" where
  "brightness_byte br = (32 - py_int (32 - br * 31)) AND 31"

definition DotStar_set_item :: "DotStar \<Rightarrow> int \<Rightarrow> color \<Rightarrow> outcome" where
  "DotStar_set_item s index val =
     (if self_n s < index \<and> index = 0 then Inl (ZeroDivisionError, s)
      else
        let num = (if self_n s < index then \<lceil>real_of_int (self_n s) / real_of_int index\<rceil> else 0);
            offset = index * 4 + START_HEADER_SIZE * (num + 1)
        in case pixel_order s of (o0, o1, o2) \<Rightarrow>
          (case bytearray_set (self_buf s) offset (brightness_byte (brightness_of val) OR LED_START) of
             Inl e \<Rightarrow> Inl (e, s)
           | Inr b0 \<Rightarrow>
          (case store_item b0 (offset + 1) val o0 of
             Inl e \<Rightarrow> Inl (e, s\<lparr>self_buf := b0\<rparr>)
           | Inr b1 \<Rightarrow>
          (case store_item b1 (offset + 2) val o1 of
             Inl e \<Rightarrow> Inl (e, s\<lparr>self_buf := b1\<rparr>)
           | Inr b2 \<Rightarrow>
          (case store_item b2 (offset + 3) val o2 of
             Inl e \<Rightarrow> Inl (e, s\<lparr>self_buf := b2\<rparr>)
           | Inr b3 \<Rightarrow> Inr (s\<lparr>self_buf := b3\<rparr>))))))"

text \<open>\<^verbatim>\<open>__getitem__\<close> with an integer index (source lines 215 to 221).\<close>

definition DotStar_getitem :: "DotStar \<Rightarrow> int \<Rightarrow> error + (int \<times> int \<times> int)" where
  "DotStar_getitem s index0 =
     (let index = (if index0 < 0 then index0 + self_n s else index0)
      in if self_n s \<le> index \<or> index < 0 then Inl IndexError
         else
           let offset = index * 4
           in (case bytearray_get (self_buf s) (offset + (3 - 0) + START_HEADER_SIZE) of
                 Inl e \<Rightarrow> Inl e
               | Inr x \<Rightarrow>
              (case bytearray_get (self_buf s) (offset + (3 - 1) + START_HEADER_SIZE) of
                 Inl e \<Rightarrow> Inl e
               | Inr y \<Rightarrow>
              (case bytearray_get (self_buf s) (offset + (3 - 2) + START_HEADER_SIZE) of
                 Inl e \<Rightarrow> Inl e
               | Inr z \<Rightarrow> Inr (x, y, z)))))"

subsection \<open>Showing\<close>

text \<open>The inner loop of \<^verbatim>\<open>_ds_writebytes\<close>: eight clock pulses for the byte at \<open>i\<close>, each
  followed by \<^verbatim>\<open>buf[i] = buf[i] << 1\<close>.\<close>

fun clock_out :: "nat \<Rightarrow> int \<Rightarrow> wire \<times> bytearray \<Rightarrow> (error \<times> wire \<times> bytearray) + (wire \<times> bytearray)" where
  "clock_out 0 i (w, b) = Inr (w, b)"
| "clock_out (Suc k) i (w, b) =
     (case bytearray_get b i of
        Inl e \<Rightarrow> Inl (e, w\<lparr>cpin := True\<rparr>, b)
      | Inr v \<Rightarrow>
          (case bytearray_set b i (push_bit 1 v) of
             Inl e \<Rightarrow> Inl (e, \<lparr>cpin = False, dpin = (v AND 128 \<noteq> 0)\<rparr>, b)
           | Inr b' \<Rightarrow> clock_out k i (\<lparr>cpin = False, dpin = (v AND 128 \<noteq> 0)\<rparr>, b')))"

fun clock_out_each :: "int list \<Rightarrow> wire \<times> bytearray \<Rightarrow> (error \<times> wire \<times> bytearray) + (wire \<times> bytearray)" where
  "clock_out_each [] wb = Inr wb"
| "clock_out_each (i # rest) wb =
     (case clock_out 8 i wb of Inl e \<Rightarrow> Inl e | Inr wb' \<Rightarrow> clock_out_each rest wb')"

text \<open>\<^verbatim>\<open>_ds_writebytes(buf, start, length)\<close> (source lines 247 to 255).\<close>

definition DotStar_ds_writebytes ::
  "wire \<times> bytearray \<Rightarrow> int \<Rightarrow> int \<Rightarrow> (error \<times> wire \<times> bytearray) + (wire \<times> bytearray)" where
  "DotStar_ds_writebytes wb start len =
     (let len' = (if len = - 1 then int (length (snd wb)) else len)
      in clock_out_each (py_range start len' 1) wb)"

text \<open>The loop of source lines 304 and 305: it reads the strip's buffer and writes the
  copy.\<close>

fun scale_each :: "bytearray \<Rightarrow> real \<Rightarrow> bytearray \<Rightarrow> int list \<Rightarrow> error + bytearray" where
  "scale_each live br b [] = Inr b"
| "scale_each live br b (i # rest) =
     (case bytearray_get live i of
        Inl e \<Rightarrow> Inl e
      | Inr v \<Rightarrow>
          (case bytearray_set b i (if i mod 4 = 0 then v else py_int (real_of_int v * br)) of
             Inl e \<Rightarrow> Inl e
           | Inr b' \<Rightarrow> scale_each live br b' rest))"

text \<open>The buffer \<^verbatim>\<open>buf\<close> that \<^verbatim>\<open>show\<close> hands to the transmitter (source lines 298 to
  308): the strip's own buffer, or below full brightness a scaled copy of it.\<close>

definition show_buf :: "DotStar \<Rightarrow> error + bytearray" where
  "show_buf s =
     (if self_brightness s < 1 then
        (case store_each (self_buf s) (py_range 0 START_HEADER_SIZE 1) 0 of
           Inl e \<Rightarrow> Inl e
         | Inr b1 \<Rightarrow>
        (case scale_each (self_buf s) (self_brightness s) b1
                (py_range START_HEADER_SIZE (end_header_index s) 1) of
           Inl e \<Rightarrow> Inl e
         | Inr b2 \<Rightarrow> store_each b2 (py_range (end_header_index s) (int (length b2)) 1) 255))
      else Inr (self_buf s))"

text \<open>\<^verbatim>\<open>show(line)\<close>. The hardware write goes to the peripheral and leaves the strip as
  it is. On the bit-banged path \<^verbatim>\<open>_ds_writebytes\<close> works on \<^verbatim>\<open>buf\<close>, which at full
  brightness is the strip's own buffer and otherwise the copy.\<close>

definition after_writebytes :: "DotStar \<Rightarrow> wire \<Rightarrow> bytearray \<Rightarrow> DotStar" where
  "after_writebytes s w b =
     s\<lparr>pins := w, self_buf := (if self_brightness s < 1 then self_buf s else b)\<rparr>"

definition DotStar_show :: "DotStar \<Rightarrow> int \<Rightarrow> outcome" where
  "DotStar_show s line =
     (case show_buf s of
        Inl e \<Rightarrow> Inl (e, s)
      | Inr b \<Rightarrow>
          if self_spi s then Inr s
          else (case DotStar_ds_writebytes (pins s, b) (line * self_n s) ((line + 1) * self_n s) of
                  Inl (e, w, b') \<Rightarrow> Inl (e, after_writebytes s w b')
                | Inr (w, b') \<Rightarrow> Inr (after_writebytes s (w\<lparr>cpin := False\<rparr>) b')))"

subsection \<open>Item assignment\<close>

text \<open>\<^verbatim>\<open>__setitem__\<close> with an integer index.\<close>

definition DotStar_setitem :: "DotStar \<Rightarrow> int \<Rightarrow> color \<Rightarrow> outcome" where
  "DotStar_setitem s index val =
     (case DotStar_set_item s index val of
        Inl es \<Rightarrow> Inl es
      | Inr s' \<Rightarrow> if auto_write s' then DotStar_show s' 0 else Inr s')"

text \<open>The loop of source lines 200 and 201, \<open>k\<close> being \<^verbatim>\<open>val_i\<close>.\<close>

fun set_items :: "DotStar \<Rightarrow> int list \<Rightarrow> color list \<Rightarrow> nat \<Rightarrow> outcome" where
  "set_items s [] val k = Inr s"
| "set_items s (i # rest) val k =
     (if k < length val
      then (case DotStar_set_item s i (val ! k) of
              Inl es \<Rightarrow> Inl es
            | Inr s' \<Rightarrow> set_items s' rest val (Suc k))
      else Inl (IndexError, s))"

text \<open>\<^verbatim>\<open>__setitem__\<close> with a slice and a list of colours.\<close>

definition slice_length :: "int \<Rightarrow> int \<Rightarrow> int \<Rightarrow> int" where
  "slice_length start stop step =
     (if step \<noteq> 0 then (stop - start + step - 1) div step else stop - start)"

definition DotStar_setitem_slice ::
  "DotStar \<Rightarrow> int option \<times> int option \<times> int option \<Rightarrow> color list \<Rightarrow> outcome" where
  "DotStar_setitem_slice s sl val =
     (case slice_indices sl (self_n s) of
        Inl e \<Rightarrow> Inl (e, s)
      | Inr (start, stop, step) \<Rightarrow>
          if int (length val) \<noteq> slice_length start stop step then Inl (ValueError, s)
          else (case set_items s (py_range start stop step) val 0 of
                  Inl es \<Rightarrow> Inl es
                | Inr s' \<Rightarrow> if auto_write s' then DotStar_show s' 0 else Inr s'))"

section \<open>Well-formed strips\<close>

text \<open>What \<^verbatim>\<open>__init__\<close> establishes for a positive pixel count and at least one line,
  and what no later method changes: the sizes computed at source lines 103 to 107.\<close>

definition strip_ok :: "DotStar \<Rightarrow> bool" where
  "strip_ok s \<longleftrightarrow>
     0 < self_n s \<and> 1 \<le> self_line s \<and>
     end_header_size s = (if self_n s mod 16 \<noteq> 0 then self_n s div 16 + 1 else self_n s div 16) \<and>
     end_header_index s = START_HEADER_SIZE + self_n s * 4 - end_header_size s \<and>
     int (length (self_buf s)) =
       self_line s * (self_n s * 4 + START_HEADER_SIZE + end_header_size s)"

section \<open>Constructed strips and the header byte as claimed\<close>

text \<open>The strip that \<^verbatim>\<open>DotStar(clock, data, 1, 1, auto_write=False)\<close> constructs (lemma
  \<open>one_pixel_constructed\<close> below), for concrete runs of the methods.\<close>

definition one_pixel :: "bool \<Rightarrow> real \<Rightarrow> nat \<times> nat \<times> nat \<Rightarrow> DotStar" where
  "one_pixel spi br po =
     \<lparr>self_spi = spi, self_line = 1, self_n = 1, end_header_size = 1, end_header_index = 7,
      self_buf = [0, 0, 0, 0, 255, 0, 0, 255, 0], pixel_order = po, self_brightness = br,
      auto_write = False, pins = \<lparr>cpin = False, dpin = False\<rparr>\<rparr>"



text \<open>The buffer that \<^verbatim>\<open>_ds_writebytes\<close> leaves behind, whether it returned or raised.\<close>

fun written_buf :: "(error \<times> wire \<times> bytearray) + (wire \<times> bytearray) \<Rightarrow> bytearray" where
  "written_buf (Inl (e, w, b)) = b"
| "written_buf (Inr (w, b)) = b"

text \<open>Three more constructed strips: \<^verbatim>\<open>DotStar(clock, data, 6, 2, auto_write=False)\<close> on the
  bit-banged path, the same strip after \<^verbatim>\<open>_set_item(0, (1, 0, 0))\<close>, and
  \<^verbatim>\<open>DotStar(clock, data, 4, 1, auto_write=False)\<close> on the hardware path.\<close>

definition two_lines_of_six :: DotStar where
  "two_lines_of_six =
     \<lparr>self_spi = False, self_line = 2, self_n = 6, end_header_size = 1, end_header_index = 27,
      self_buf = [0, 0, 0, 0, 255, 0, 0, 0, 0, 0, 255, 0, 255, 0, 255, 0, 255, 0, 255, 0,
                  255, 0, 255, 0, 255, 0, 255, 255, 0, 0, 255, 0, 0, 255, 0, 0, 0, 0, 0, 0,
                  0, 0, 0, 0, 0, 0, 0, 0, 0, 0, 0, 0, 0, 0, 0, 0, 0, 0],
      pixel_order = BGR, self_brightness = 1, auto_write = False,
      pins = \<lparr>cpin = False, dpin = False\<rparr>\<rparr>"

definition red_pixel_on_two_lines :: DotStar where
  "red_pixel_on_two_lines = outcome_state (DotStar_set_item two_lines_of_six 0 (Triple 1 0 0))"

definition four_pixels :: DotStar where
  "four_pixels =
     \<lparr>self_spi = True, self_line = 1, self_n = 4, end_header_size = 1, end_header_index = 19,
      self_buf = [0, 0, 0, 0, 255, 0, 0, 0, 255, 0, 0, 0, 255, 0, 0, 0, 255, 0, 0, 255, 0],
      pixel_order = BGR, self_brightness = 1, auto_write = False,
      pins = \<lparr>cpin = False, dpin = False\<rparr>\<rparr>"

section \<open>Byte arrays and ranges\<close>

lemma bytearray_set_inside:
  "0 \<le> v \<Longrightarrow> v \<le> 255 \<Longrightarrow> 0 \<le> i \<Longrightarrow> i < int (length b) \<Longrightarrow>
   bytearray_set b i v = Inr (b[nat i := v])"
  by (simp add: bytearray_set_def)

lemma bytearray_set_length:
  "bytearray_set b i v = Inr b' \<Longrightarrow> length b' = length b"
  by (auto simp: bytearray_set_def Let_def split: if_splits)

lemma bytearray_get_inside:
  "0 \<le> i \<Longrightarrow> i < int (length b) \<Longrightarrow> bytearray_get b i = Inr (b ! nat i)"
  by (simp add: bytearray_get_def)

lemma store_each_length:
  "store_each b js v = Inr b' \<Longrightarrow> length b' = length b"
proof (induction js arbitrary: b)
  case Nil
  then show ?case by simp
next
  case (Cons j js)
  then show ?case
    by (auto split: sum.splits dest: bytearray_set_length)
qed

lemma store_each_inside:
  assumes "0 \<le> v" "v \<le> 255" "\<forall>j\<in>set js. 0 \<le> j \<and> j < int (length b)"
  shows "\<exists>b'. store_each b js v = Inr b'"
  using assms(3)
proof (induction js arbitrary: b)
  case Nil
  then show ?case by simp
next
  case (Cons j js)
  have st: "bytearray_set b j v = Inr (b[nat j := v])"
    using Cons.prems assms(1,2) by (simp add: bytearray_set_inside)
  have "\<forall>k\<in>set js. 0 \<le> k \<and> k < int (length (b[nat j := v]))"
    using Cons.prems by simp
  from Cons.IH [OF this] show ?case
    by (simp add: st)
qed

lemma py_range_bounds:
  "0 < step \<Longrightarrow> i \<in> set (py_range start stop step) \<Longrightarrow> start \<le> i \<and> i < stop"
proof (induction start stop step rule: py_range.induct)
  case (1 start stop step)
  show ?case
  proof (cases "start < stop")
    case True
    with "1.prems" have "i = start \<or> i \<in> set (py_range (start + step) stop step)"
      by (subst (asm) py_range.simps) auto
    then show ?thesis
    proof
      assume "i = start"
      with True show ?thesis by simp
    next
      assume "i \<in> set (py_range (start + step) stop step)"
      with "1.IH" "1.prems"(1) True have "start + step \<le> i \<and> i < stop" by simp
      with "1.prems"(1) show ?thesis by simp
    qed
  next
    case False
    with "1.prems" show ?thesis
      by (subst (asm) py_range.simps) auto
  qed
qed

lemma py_range_unit: "set (py_range start stop 1) = {start..<stop}"
proof (induction start stop "1::int" rule: py_range.induct)
  case (1 start stop)
  show ?case
  proof (cases "start < stop")
    case True
    then have "set (py_range start stop 1) = insert start (set (py_range (start + 1) stop 1))"
      by (subst py_range.simps) simp
    also have "\<dots> = insert start {start + 1..<stop}"
      using "1" True by simp
    also have "\<dots> = {start..<stop}"
      using True by auto
    finally show ?thesis .
  next
    case False
    then show ?thesis
      by (subst py_range.simps) simp
  qed
qed

lemma init_line_inside:
  assumes "0 \<le> j * n" "j * n + ehi + ehs \<le> int (length b)" "4 \<le> ehi" "0 \<le> ehs"
  shows "\<exists>b'. init_line n ehi ehs b j = Inr b' \<and> length b' = length b"
proof -
  have r1: "\<forall>k\<in>set (map (\<lambda>i. j * n + i) (py_range 0 START_HEADER_SIZE 1)). 0 \<le> k \<and> k < int (length b)"
    using assms by (auto simp: START_HEADER_SIZE_def dest!: py_range_bounds [rotated])
  obtain b1 where b1: "store_each b (map (\<lambda>i. j * n + i) (py_range 0 START_HEADER_SIZE 1)) 0 = Inr b1"
    using store_each_inside [OF _ _ r1, of 0] by auto
  have l1: "length b1 = length b"
    using b1 by (rule store_each_length)
  have r2: "\<forall>k\<in>set (map (\<lambda>i. j * n + i) (py_range START_HEADER_SIZE ehi 4)). 0 \<le> k \<and> k < int (length b1)"
    using assms l1 by (auto simp: START_HEADER_SIZE_def dest!: py_range_bounds [rotated])
  obtain b2 where b2: "store_each b1 (map (\<lambda>i. j * n + i) (py_range START_HEADER_SIZE ehi 4)) 255 = Inr b2"
    using store_each_inside [OF _ _ r2, of 255] by auto
  have l2: "length b2 = length b"
    using b2 l1 by (simp add: store_each_length)
  have r3: "\<forall>k\<in>set (map (\<lambda>i. j * n + i) (py_range ehi (ehi + ehs) 1)). 0 \<le> k \<and> k < int (length b2)"
    using assms l2 by (auto dest!: py_range_bounds [rotated])
  obtain b3 where b3: "store_each b2 (map (\<lambda>i. j * n + i) (py_range ehi (ehi + ehs) 1)) 255 = Inr b3"
    using store_each_inside [OF _ _ r3, of 255] by auto
  have "length b3 = length b"
    using b3 l2 by (simp add: store_each_length)
  then show ?thesis
    by (simp add: init_line_def b1 b2 b3)
qed

lemma init_lines_inside:
  assumes "4 \<le> ehi" "0 \<le> ehs"
    and "\<forall>j\<in>set js. 0 \<le> j * n \<and> j * n + ehi + ehs \<le> int (length b)"
  shows "\<exists>b'. init_lines n ehi ehs b js = Inr b' \<and> length b' = length b"
  using assms(3)
proof (induction js arbitrary: b)
  case Nil
  then show ?case by simp
next
  case (Cons j js)
  obtain b1 where b1: "init_line n ehi ehs b j = Inr b1" "length b1 = length b"
    using init_line_inside [of j n ehi ehs b] Cons.prems assms(1,2) by auto
  have "\<forall>k\<in>set js. 0 \<le> k * n \<and> k * n + ehi + ehs \<le> int (length b1)"
    using Cons.prems b1(2) by simp
  from Cons.IH [OF this] show ?case
    by (simp add: b1)
qed

section \<open>Construction\<close>

lemma quotient_bounds:
  fixes q r :: int
  assumes "0 \<le> r" "r < 16" "0 < 16 * q + r"
  shows "1 \<le> (if r \<noteq> 0 then q + 1 else q)"
    and "(if r \<noteq> 0 then q + 1 else q) \<le> 16 * q + r"
  using assms by (auto split: if_splits)

lemma end_header_size_bounds:
  assumes "0 < (n::int)"
  shows "1 \<le> (if n mod 16 \<noteq> 0 then n div 16 + 1 else n div 16)"
    and "(if n mod 16 \<noteq> 0 then n div 16 + 1 else n div 16) \<le> n"
proof -
  have r: "0 \<le> n mod 16" "n mod 16 < 16" by simp_all
  have n: "16 * (n div 16) + n mod 16 = n" by (rule mult_div_mod_eq)
  have pos: "0 < 16 * (n div 16) + n mod 16" using assms by (simp only: n)
  show "1 \<le> (if n mod 16 \<noteq> 0 then n div 16 + 1 else n div 16)"
    by (rule quotient_bounds(1) [OF r pos])
  have "(if n mod 16 \<noteq> 0 then n div 16 + 1 else n div 16) \<le> 16 * (n div 16) + n mod 16"
    by (rule quotient_bounds(2) [OF r pos])
  then show "(if n mod 16 \<noteq> 0 then n div 16 + 1 else n div 16) \<le> n"
    by (simp only: n)
qed

lemma quotient_ceiling:
  fixes q r :: int
  assumes "0 \<le> r" "r < 16"
  shows "\<lceil>(16 * real_of_int q + real_of_int r) / 16\<rceil> = (if r \<noteq> 0 then q + 1 else q)"
proof (cases "r = 0")
  case True
  then show ?thesis by simp
next
  case False
  then have r1: "1 \<le> real_of_int r" "real_of_int r < 16"
    using assms by simp_all
  have "\<lceil>(16 * real_of_int q + real_of_int r) / 16\<rceil> = q + 1"
  proof (rule ceiling_unique)
    show "real_of_int (q + 1) - 1 < (16 * real_of_int q + real_of_int r) / 16"
      using r1 by simp
    show "(16 * real_of_int q + real_of_int r) / 16 \<le> real_of_int (q + 1)"
      using r1 by simp
  qed
  then show ?thesis using False by simp
qed

lemma ceiling_sixteenth:
  "\<lceil>real_of_int n / 16\<rceil> = (if n mod 16 \<noteq> 0 then n div 16 + 1 else n div 16)"
proof -
  have r: "0 \<le> n mod 16" "n mod 16 < 16" by simp_all
  have "16 * (n div 16) + n mod 16 = n" by (rule mult_div_mod_eq)
  then have "real_of_int (16 * (n div 16) + n mod 16) = real_of_int n" by (simp only:)
  then have "16 * real_of_int (n div 16) + real_of_int (n mod 16) = real_of_int n"
    by (simp only: of_int_add of_int_mult of_int_numeral)
  then show ?thesis
    using quotient_ceiling [OF r, of "n div 16"] by (simp only:)
qed

lemma line_base_inside:
  assumes "0 < (n::int)" "0 \<le> j" "j < L" "0 \<le> e"
  shows "0 \<le> j * n" and "j * n + (4 + n * 4 - e) + e \<le> L * n * 4 + L * 4 + L * e"
proof -
  show "0 \<le> j * n" using assms by simp
  have "j + 1 \<le> L" using assms by simp
  then have "(j + 1) * n \<le> L * n"
    using assms(1) by (intro mult_right_mono) simp_all
  then have a: "j * n + n \<le> L * n" by (simp add: algebra_simps)
  have b: "0 \<le> L * n" using assms by simp
  have c: "0 \<le> L * e" using assms by simp
  have d: "1 \<le> L" using assms by simp
  have "j * n \<le> L * n - n" using a by simp
  moreover have "0 \<le> j * n" using assms by simp
  ultimately have "j * n + n * 4 \<le> L * n * 4" using a b by linarith
  then show "j * n + (4 + n * 4 - e) + e \<le> L * n * 4 + L * 4 + L * e"
    using c d by linarith
qed

lemma init_constructs:
  assumes "0 < n" "1 \<le> L"
  shows "\<exists>s. DotStar_init spi n L br aw po = Inr s \<and> strip_ok s \<and> self_n s = n \<and>
             self_line s = L \<and> pixel_order s = po \<and> self_spi s = spi \<and> auto_write s = aw \<and>
             self_brightness s = min (max br 0) 1"
proof -
  define e where "e = (if n mod 16 \<noteq> 0 then n div 16 + 1 else n div 16)"
  have e: "1 \<le> e" "e \<le> n"
    using end_header_size_bounds [OF assms(1)] by (simp_all add: e_def)
  define len where "len = L * n * 4 + L * 4 + L * e"
  have len0: "0 \<le> len"
    using assms e by (simp add: len_def)
  define b where "b = replicate (nat len) (0::int)"
  have new: "bytearray_new len = Inr b"
    using len0 by (simp add: bytearray_new_def b_def)
  have lb: "int (length b) = len"
    using len0 by (simp add: b_def)
  have "\<forall>j\<in>set (py_range 0 L 1). 0 \<le> j * n \<and> j * n + (4 + n * 4 - e) + e \<le> int (length b)"
  proof
    fix j assume "j \<in> set (py_range 0 L 1)"
    then have j: "0 \<le> j" "j < L" by (simp_all add: py_range_unit)
    show "0 \<le> j * n \<and> j * n + (4 + n * 4 - e) + e \<le> int (length b)"
      using line_base_inside [OF assms(1) j, of e] e by (simp add: lb len_def)
  qed
  moreover have "4 \<le> 4 + n * 4 - e" "0 \<le> e" using e assms by simp_all
  ultimately obtain b' where b': "init_lines n (4 + n * 4 - e) e b (py_range 0 L 1) = Inr b'"
      "length b' = length b"
    using init_lines_inside [of "4 + n * 4 - e" e "py_range 0 L 1" n b] by blast
  have "int (length b') = L * (n * 4 + 4 + e)"
    using b'(2) lb by (simp add: len_def algebra_simps)
  then show ?thesis
    using new b'(1)
    unfolding e_def len_def
    by (simp add: DotStar_init_def Let_def START_HEADER_SIZE_def strip_ok_def assms)
qed

text \<open>
  Claim C2. For every pixel count \<open>n > 0\<close> and line count \<open>L \<ge> 1\<close> the constructor
  returns a strip whose buffer has \<open>L * (n * 4 + 4 + ceil (n / 16))\<close> bytes, where
  \<open>ceil (n / 16)\<close> is \<open>n div 16\<close> when 16 divides \<open>n\<close> and \<open>n div 16 + 1\<close> otherwise.
  The witness instantiates it at \<open>n\<close> = 1, 15, 16, 17 and 100.
\<close>

theorem init_buffer_length:
  assumes "0 < n" and "1 \<le> L"
  shows "\<exists>s. DotStar_init spi n L br aw po = Inr s \<and>
             int (length (self_buf s)) = L * (n * 4 + 4 + \<lceil>real_of_int n / 16\<rceil>) \<and>
             \<lceil>real_of_int n / 16\<rceil> = (if n mod 16 = 0 then n div 16 else n div 16 + 1)"
proof -
  obtain s where s: "DotStar_init spi n L br aw po = Inr s" "strip_ok s" "self_n s = n"
      "self_line s = L"
    using init_constructs [OF assms] by blast
  have "int (length (self_buf s)) = L * (n * 4 + 4 + \<lceil>real_of_int n / 16\<rceil>)"
    using s(2-4) by (simp add: strip_ok_def START_HEADER_SIZE_def ceiling_sixteenth)
  moreover have "\<lceil>real_of_int n / 16\<rceil> = (if n mod 16 = 0 then n div 16 else n div 16 + 1)"
    by (simp add: ceiling_sixteenth)
  ultimately show ?thesis using s(1) by blast
qed

theorem init_buffer_length_witness:
  "(\<exists>s. DotStar_init True 1 1 1 True BGR = Inr s \<and> int (length (self_buf s)) = 9) \<and>
   (\<exists>s. DotStar_init True 15 1 1 True BGR = Inr s \<and> int (length (self_buf s)) = 65) \<and>
   (\<exists>s. DotStar_init True 16 1 1 True BGR = Inr s \<and> int (length (self_buf s)) = 69) \<and>
   (\<exists>s. DotStar_init True 17 1 1 True BGR = Inr s \<and> int (length (self_buf s)) = 74) \<and>
   (\<exists>s. DotStar_init True 100 1 1 True BGR = Inr s \<and> int (length (self_buf s)) = 411) \<and>
   (\<exists>s. DotStar_init False 17 3 (1 / 2) False RGB = Inr s \<and> int (length (self_buf s)) = 222)"
proof -
  have a: "(0::int) < 1" "(0::int) < 15" "(0::int) < 16" "(0::int) < 17" "(0::int) < 100"
      "(1::int) \<le> 1" "(1::int) \<le> 3"
    by simp_all
  show ?thesis
    using init_buffer_length [OF a(1) a(6), of True 1 True BGR]
      init_buffer_length [OF a(2) a(6), of True 1 True BGR]
      init_buffer_length [OF a(3) a(6), of True 1 True BGR]
      init_buffer_length [OF a(4) a(6), of True 1 True BGR]
      init_buffer_length [OF a(5) a(6), of True 1 True BGR]
      init_buffer_length [OF a(4) a(7), of False "1 / 2" False RGB]
      ceiling_sixteenth [of 1]
    by simp
qed

section \<open>Pixel writes and reads\<close>

lemma py_range_4: "py_range 0 4 1 = [0, 1, 2, 3]"
  by (simp add: py_range.simps)


lemma one_pixel_ok: "strip_ok (one_pixel spi br po)"
  by (simp add: strip_ok_def one_pixel_def START_HEADER_SIZE_def)

lemma strip_ok_room:
  assumes "strip_ok s"
  shows "self_n s * 4 + 4 < int (length (self_buf s))"
proof -
  define p where "p = self_n s * 4 + 4 + end_header_size s"
  have n: "0 < self_n s" and L: "1 \<le> self_line s"
    and e: "end_header_size s = (if self_n s mod 16 \<noteq> 0 then self_n s div 16 + 1 else self_n s div 16)"
    and len: "int (length (self_buf s)) = self_line s * p"
    using assms by (simp_all add: strip_ok_def START_HEADER_SIZE_def p_def)
  have e1: "1 \<le> end_header_size s"
    using end_header_size_bounds(1) [OF n] by (simp only: e)
  have p: "self_n s * 4 + 4 < p" using e1 by (simp add: p_def)
  then have "0 \<le> p" using n by simp
  then have "1 * p \<le> self_line s * p"
    using L by (intro mult_right_mono)
  then show ?thesis using p len by simp
qed

lemma brightness_byte_range: "0 \<le> brightness_byte br" "brightness_byte br \<le> 31"
  by (simp_all add: brightness_byte_def AND_upper2)

lemma header_value_range:
  "224 \<le> brightness_byte br OR LED_START" "brightness_byte br OR LED_START \<le> 255"
proof -
  have "LED_START \<le> LED_START OR brightness_byte br"
    by (rule or_greater_eq) (rule brightness_byte_range)
  then show "224 \<le> brightness_byte br OR LED_START"
    by (simp add: LED_START_def or.commute)
  have "brightness_byte br OR LED_START < 2 ^ 8"
    using brightness_byte_range [of br] by (intro OR_upper) (simp_all add: LED_START_def)
  then show "brightness_byte br OR LED_START \<le> 255" by simp
qed

lemma header_value_bits:
  "bit (brightness_byte br OR LED_START) 7"
  "bit (brightness_byte br OR LED_START) 6"
  "bit (brightness_byte br OR LED_START) 5"
  by (simp_all add: bit_or_iff LED_START_def)

lemma store_item_elsewhere:
  assumes "store_item b j c k = Inr b'" "0 \<le> j" "0 \<le> m" "m \<noteq> j"
  shows "b' ! nat m = b ! nat m" and "length b' = length b"
  using assms
  by (auto simp: store_item_def bytearray_set_def Let_def split: sum.splits if_splits)

text \<open>Whatever becomes of the three colour stores, an in-range write leaves its header
  byte in the buffer.\<close>

lemma set_item_header:
  assumes "strip_ok s" "0 \<le> i" "i < self_n s"
  shows "bytearray_get (self_buf (outcome_state (DotStar_set_item s i val))) (i * 4 + 4) =
         Inr (brightness_byte (brightness_of val) OR LED_START)"
proof -
  define off where "off = i * 4 + 4"
  define hv where "hv = brightness_byte (brightness_of val) OR LED_START"
  define b0 where "b0 = (self_buf s)[nat off := hv]"
  have room: "off < int (length (self_buf s))" "0 \<le> off"
    using strip_ok_room [OF assms(1)] assms(2,3) by (simp_all add: off_def)
  have hv: "0 \<le> hv" "hv \<le> 255"
    using header_value_range [of "brightness_of val"] unfolding hv_def by linarith+
  have st0: "bytearray_set (self_buf s) off hv = Inr b0"
    using room hv by (simp add: bytearray_set_inside b0_def)
  have b0: "length b0 = length (self_buf s)" "b0 ! nat off = hv"
    using room by (simp_all add: b0_def)
  obtain o0 o1 o2 where po: "pixel_order s = (o0, o1, o2)"
    by (cases "pixel_order s")
  define good where "good b \<longleftrightarrow> length b = length (self_buf s) \<and> b ! nat off = hv" for b
  have step: "good b'" if "good b" "store_item b (off + d) val k = Inr b'" "0 < d" for b b' d k
    using that room store_item_elsewhere [of b "off + d" val k b' off]
    by (simp add: good_def)
  have g0: "good b0" using b0 by (simp add: good_def)
  have "good (self_buf (outcome_state (DotStar_set_item s i val)))"
  proof (cases "store_item b0 (off + 1) val o0")
    case (Inl e)
    then show ?thesis
      using assms(3) st0 g0
      by (simp add: DotStar_set_item_def po START_HEADER_SIZE_def off_def [symmetric]
          hv_def [symmetric])
  next
    case b1: (Inr b1)
    have g1: "good b1" using step [OF g0 b1] by simp
    show ?thesis
    proof (cases "store_item b1 (off + 2) val o1")
      case (Inl e)
      then show ?thesis
        using assms(3) st0 b1 g1
        by (simp add: DotStar_set_item_def po START_HEADER_SIZE_def off_def [symmetric]
            hv_def [symmetric])
    next
      case b2: (Inr b2)
      have g2: "good b2" using step [OF g1 b2] by simp
      show ?thesis
      proof (cases "store_item b2 (off + 3) val o2")
        case (Inl e)
        then show ?thesis
          using assms(3) st0 b1 b2 g2
          by (simp add: DotStar_set_item_def po START_HEADER_SIZE_def off_def [symmetric]
              hv_def [symmetric])
      next
        case b3: (Inr b3)
        have g3: "good b3" using step [OF g2 b3] by simp
        show ?thesis
          using assms(3) st0 b1 b2 b3 g3
          by (simp add: DotStar_set_item_def po START_HEADER_SIZE_def off_def [symmetric]
              hv_def [symmetric])
      qed
    qed
  qed
  then show ?thesis
    using room by (simp add: good_def bytearray_get_def off_def [symmetric] hv_def [symmetric])
qed

lemmas set_item_eval =
  DotStar_set_item_def one_pixel_def START_HEADER_SIZE_def LED_START_def brightness_byte_def
  py_int_def store_item_def bytearray_set_def bytearray_get_def
  RGB_def RBG_def GRB_def GBR_def BRG_def BGR_def

text \<open>
  Claim C4. After a pixel write at an index of the strip, whatever the shape of the colour
  value (packed integer, triple, or quadruple with any brightness) and whether or not the
  colour stores that follow succeed, the byte at the pixel's header offset is a byte
  whose bits 7, 6 and 5 are set.
\<close>

theorem header_top_bits_set:
  assumes "strip_ok s" and "0 \<le> i" and "i < self_n s"
  shows "\<exists>h. bytearray_get (self_buf (outcome_state (DotStar_set_item s i val)))
               (i * 4 + START_HEADER_SIZE) = Inr h \<and>
             bit h 7 \<and> bit h 6 \<and> bit h 5 \<and> 0 \<le> h \<and> h \<le> 255"
proof -
  have "0 \<le> brightness_byte (brightness_of val) OR LED_START"
    using header_value_range(1) [of "brightness_of val"] by linarith
  then show ?thesis
    using set_item_header [OF assms, of val] header_value_bits [of "brightness_of val"]
      header_value_range(2) [of "brightness_of val"]
    by (simp add: START_HEADER_SIZE_def)
qed

theorem header_top_bits_set_witness:
  "strip_ok (one_pixel True 1 BGR) \<and>
   (\<exists>h. bytearray_get (self_buf (outcome_state
            (DotStar_set_item (one_pixel True 1 BGR) 0 (Quad 10 20 30 (1 / 2))))) 4 = Inr h \<and>
        bit h 7 \<and> bit h 6 \<and> bit h 5 \<and> 0 \<le> h \<and> h \<le> 255) \<and>
   (\<exists>h. bytearray_get (self_buf (outcome_state
            (DotStar_set_item (one_pixel True 1 BGR) 0 (Packed 16777216)))) 4 = Inr h \<and>
        bit h 7 \<and> bit h 6 \<and> bit h 5 \<and> 0 \<le> h \<and> h \<le> 255) \<and>
   DotStar_set_item (one_pixel True 1 BGR) 0 (Packed 16777216) =
     Inl (ValueError, (one_pixel True 1 BGR)\<lparr>self_buf := [0, 0, 0, 0, 255, 0, 0, 255, 0]\<rparr>)"
proof -
  have ok: "strip_ok (one_pixel True 1 BGR)" by (rule one_pixel_ok)
  have i: "(0::int) \<le> 0" "0 < self_n (one_pixel True 1 BGR)"
    by (simp_all add: one_pixel_def)
  have "DotStar_set_item (one_pixel True 1 BGR) 0 (Packed 16777216) =
     Inl (ValueError, (one_pixel True 1 BGR)\<lparr>self_buf := [0, 0, 0, 0, 255, 0, 0, 255, 0]\<rparr>)"
    by (simp add: set_item_eval drop_bit_eq_div)
  then show ?thesis
    using header_top_bits_set [OF ok i, of "Quad 10 20 30 (1 / 2)"]
      header_top_bits_set [OF ok i, of "Packed 16777216"] ok
    by (simp add: START_HEADER_SIZE_def)
qed





lemma getitem_inside:
  assumes "strip_ok s" "0 \<le> i" "i < self_n s"
  shows "DotStar_getitem s i =
        Inr (self_buf s ! nat (i * 4 + 7), self_buf s ! nat (i * 4 + 6), self_buf s ! nat (i * 4 + 5))"
proof -
  have room: "self_n s * 4 + 4 < int (length (self_buf s))"
    using assms(1) by (rule strip_ok_room)
  have e: "i * 4 + (3 - 0) + START_HEADER_SIZE = i * 4 + 7"
    "i * 4 + (3 - 1) + START_HEADER_SIZE = i * 4 + 6"
    "i * 4 + (3 - 2) + START_HEADER_SIZE = i * 4 + 5"
    by (simp_all add: START_HEADER_SIZE_def)
  have g: "bytearray_get (self_buf s) (i * 4 + 7) = Inr (self_buf s ! nat (i * 4 + 7))"
    "bytearray_get (self_buf s) (i * 4 + 6) = Inr (self_buf s ! nat (i * 4 + 6))"
    "bytearray_get (self_buf s) (i * 4 + 5) = Inr (self_buf s ! nat (i * 4 + 5))"
    using assms(2,3) room by (auto intro!: bytearray_get_inside)
  have idx: "(if i < 0 then i + self_n s else i) = i" using assms(2) by simp
  have chk: "\<not> (self_n s \<le> i \<or> i < 0)" using assms(2,3) by simp
  show ?thesis
    unfolding DotStar_getitem_def Let_def idx e
    by (simp only: chk if_False g sum.case)
qed




section \<open>Pixel counts that are not positive\<close>

lemma negative_quotient:
  fixes q r :: int
  assumes "16 * q + r < 0" "0 \<le> r" "r < 16"
  shows "(if r \<noteq> 0 then q + 1 else q) \<le> 0"
  using assms by (auto split: if_splits)

lemma end_header_size_nonpositive:
  assumes "(n::int) < 0"
  shows "(if n mod 16 \<noteq> 0 then n div 16 + 1 else n div 16) \<le> 0"
proof -
  have r: "0 \<le> n mod 16" "n mod 16 < 16" by simp_all
  have "16 * (n div 16) + n mod 16 = n" by (rule mult_div_mod_eq)
  then have "16 * (n div 16) + n mod 16 < 0" using assms by (simp only:)
  then show ?thesis by (rule negative_quotient [OF _ r])
qed

text \<open>
  Claim C8, amended. The constructor has no check of the pixel count. For every negative
  count (and at least one line) construction fails: with \<open>ValueError\<close> from the allocation
  of a negative length, or for \<open>n = -1\<close> with \<open>IndexError\<close> from the first store into the
  empty buffer.
\<close>

theorem init_negative_count_fails:
  assumes "n < 0" and "1 \<le> L"
  shows "DotStar_init spi n L br aw po = Inl (if n = - 1 then IndexError else ValueError)"
proof (cases "n = - 1")
  case True
  have "py_range 0 L 1 = 0 # py_range 1 L 1"
    using assms(2) by (subst py_range.simps) simp
  then show ?thesis
    using True
    by (simp add: DotStar_init_def bytearray_new_def START_HEADER_SIZE_def init_line_def
        py_range_4 bytearray_set_def)
next
  case False
  define e where "e = (if n mod 16 \<noteq> 0 then n div 16 + 1 else n div 16)"
  have e: "e \<le> 0"
    using end_header_size_nonpositive [OF assms(1)] by (simp add: e_def)
  have "n * 4 + 4 + e < 0" using False assms(1) e by simp
  then have "L * (n * 4 + 4 + e) < 0"
    using assms(2) by (simp add: mult_pos_neg)
  then have "L * n * 4 + L * 4 + L * e < 0"
    by (simp add: algebra_simps)
  then have "bytearray_new (L * n * 4 + L * START_HEADER_SIZE + L * e) = Inl ValueError"
    by (simp add: bytearray_new_def START_HEADER_SIZE_def)
  then show ?thesis
    using False unfolding e_def by (simp add: DotStar_init_def Let_def)
qed

theorem init_negative_count_fails_witness:
  "DotStar_init True (- 1) 1 1 True BGR = Inl IndexError \<and>
   DotStar_init True (- 2) 1 1 True BGR = Inl ValueError \<and>
   DotStar_init False (- 16) 3 1 True BGR = Inl ValueError"
proof -
  have a: "(- 1 :: int) < 0" "(- 2 :: int) < 0" "(- 16 :: int) < 0" "(1::int) \<le> 1" "(1::int) \<le> 3"
    by simp_all
  show ?thesis
    using init_negative_count_fails [OF a(1) a(4), of True 1 True BGR]
      init_negative_count_fails [OF a(2) a(4), of True 1 True BGR]
      init_negative_count_fails [OF a(3) a(5), of False 1 True BGR]
    by simp
qed

text \<open>The claim C8 as stated fails at \<open>n = 0\<close>: the constructor returns a strip whose
  buffer is the four start-frame bytes.\<close>

theorem init_zero_count_constructs:
  "DotStar_init True 0 1 1 True BGR =
     Inr \<lparr>self_spi = True, self_line = 1, self_n = 0, end_header_size = 0,
          end_header_index = 4, self_buf = [0, 0, 0, 0], pixel_order = BGR,
          self_brightness = 1, auto_write = True, pins = \<lparr>cpin = False, dpin = False\<rparr>\<rparr>"
  by (simp add: DotStar_init_def bytearray_new_def START_HEADER_SIZE_def py_range.simps
      init_line_def bytearray_set_def eval_nat_numeral)

section \<open>Showing on the bit-banged path\<close>

lemma bytearray_set_after_get:
  assumes "bytearray_get b i = Inr v" "0 \<le> u" "u \<le> 255"
  shows "\<exists>b'. bytearray_set b i u = Inr b' \<and> bytearray_get b' i = Inr u \<and>
              length b' = length b \<and> (u = v \<longrightarrow> b' = b)"
  using assms
  by (auto simp: bytearray_get_def bytearray_set_def Let_def split: if_splits)

lemma clock_out_zero:
  "bytearray_get b i = Inr 0 \<Longrightarrow> \<exists>w'. clock_out k i (w, b) = Inr (w', b)"
proof (induction k arbitrary: w)
  case 0
  then show ?case by simp
next
  case (Suc k)
  obtain b' where b': "bytearray_set b i 0 = Inr b'" "b' = b"
    using bytearray_set_after_get [OF Suc.prems, of 0] by auto
  show ?case
    using Suc.prems b' Suc.IH [OF Suc.prems] by simp
qed

lemma clock_out_nonzero:
  "bytearray_get b i = Inr v \<Longrightarrow> v < 0 \<or> 255 < v * 2 ^ Suc k \<Longrightarrow>
   \<exists>w' b'. clock_out (Suc k) i (w, b) = Inl (ValueError, w', b')"
proof (induction k arbitrary: v b w)
  case 0
  then have "bytearray_set b i (v * 2) = Inl ValueError"
    by (auto simp: bytearray_set_def)
  then show ?case
    using "0.prems"(1) by (simp add: push_bit_eq_mult)
next
  case (Suc k)
  show ?case
  proof (cases "v * 2 < 0 \<or> 255 < v * 2")
    case True
    then have "bytearray_set b i (v * 2) = Inl ValueError"
      by (auto simp: bytearray_set_def)
    then show ?thesis
      using Suc.prems(1) by (simp add: push_bit_eq_mult)
  next
    case False
    then obtain b1 where b1: "bytearray_set b i (v * 2) = Inr b1"
        "bytearray_get b1 i = Inr (v * 2)"
      using bytearray_set_after_get [OF Suc.prems(1), of "v * 2"] by auto
    have "v * 2 < 0 \<or> 255 < v * 2 * 2 ^ Suc k"
      using Suc.prems(2) False by (simp add: mult.assoc)
    from Suc.IH [OF b1(2) this]
    obtain w' b' where
      "clock_out (Suc k) i (\<lparr>cpin = False, dpin = (v AND 128 \<noteq> 0)\<rparr>, b1) = Inl (ValueError, w', b')"
      by blast
    then show ?thesis
      using Suc.prems(1) b1(1) by (simp add: push_bit_eq_mult)
  qed
qed

lemma clock_out_byte_nonzero:
  assumes "bytearray_get b i = Inr v" "v \<noteq> 0"
  shows "\<exists>w' b'. clock_out 8 i (w, b) = Inl (ValueError, w', b')"
proof -
  have "v < 0 \<or> 255 < v * 2 ^ Suc 7"
    using assms(2) by (cases "v < 0") simp_all
  from clock_out_nonzero [OF assms(1) this, of w] show ?thesis
    by (simp only: Suc_numeral Num.add_One) simp
qed

lemma clock_out_top_bit:
  "bytearray_get b i = Inr v \<Longrightarrow> 0 < v \<Longrightarrow> v \<le> 255 \<Longrightarrow> 255 < v * 2 ^ Suc k \<Longrightarrow>
   \<exists>w' b' u. clock_out (Suc k) i (w, b) = Inl (ValueError, w', b') \<and>
     bytearray_get b' i = Inr u \<and> 128 \<le> u \<and> u \<le> 255 \<and> length b' = length b"
proof (induction k arbitrary: v b w)
  case 0
  then have "bytearray_set b i (v * 2) = Inl ValueError"
    by (auto simp: bytearray_set_def)
  then show ?case
    using "0.prems" by (simp add: push_bit_eq_mult)
next
  case (Suc k)
  show ?case
  proof (cases "255 < v * 2")
    case True
    then have "bytearray_set b i (v * 2) = Inl ValueError"
      by (auto simp: bytearray_set_def)
    then show ?thesis
      using Suc.prems True by (simp add: push_bit_eq_mult)
  next
    case False
    then obtain b1 where b1: "bytearray_set b i (v * 2) = Inr b1"
        "bytearray_get b1 i = Inr (v * 2)" "length b1 = length b"
      using bytearray_set_after_get [OF Suc.prems(1), of "v * 2"] Suc.prems(2) by auto
    have "0 < v * 2" "v * 2 \<le> 255" "255 < v * 2 * 2 ^ Suc k"
      using Suc.prems False by (simp_all add: mult.assoc)
    from Suc.IH [OF b1(2) this]
    obtain w' b' u where
      "clock_out (Suc k) i (\<lparr>cpin = False, dpin = (v AND 128 \<noteq> 0)\<rparr>, b1) = Inl (ValueError, w', b')"
      "bytearray_get b' i = Inr u" "128 \<le> u" "u \<le> 255" "length b' = length b1"
      by blast
    then show ?thesis
      using Suc.prems(1) b1(1,3) by (simp add: push_bit_eq_mult)
  qed
qed

lemma clock_out_byte_top_bit:
  assumes "bytearray_get b i = Inr v" "0 < v" "v \<le> 255"
  shows "\<exists>w' b' u. clock_out 8 i (w, b) = Inl (ValueError, w', b') \<and>
     bytearray_get b' i = Inr u \<and> 128 \<le> u \<and> u \<le> 255 \<and> length b' = length b"
proof -
  have "255 < v * 2 ^ Suc 7"
    using assms(2) by simp
  from clock_out_top_bit [OF assms this, of w] show ?thesis
    by (simp only: Suc_numeral Num.add_One) simp
qed

lemma clock_out_byte_done:
  assumes "clock_out 8 i (w, b) = Inr (w', b')"
  shows "bytearray_get b i = Inr 0 \<and> b' = b"
proof (cases "bytearray_get b i")
  case (Inl e)
  have "(8::nat) = Suc 7" by simp
  then have "clock_out 8 i (w, b) = Inl (e, w\<lparr>cpin := True\<rparr>, b)"
    by (simp only: clock_out.simps Inl sum.case)
  then show ?thesis using assms by simp
next
  case (Inr v)
  show ?thesis
  proof (cases "v = 0")
    case True
    then show ?thesis
      using clock_out_zero [of b i 8 w] Inr assms by auto
  next
    case False
    then show ?thesis
      using clock_out_byte_nonzero [OF Inr False, of w] assms by auto
  qed
qed

lemma clock_out_each_done:
  "clock_out_each js (w, b) = Inr (w', b') \<Longrightarrow>
   b' = b \<and> (\<forall>j\<in>set js. bytearray_get b j = Inr 0)"
proof (induction js arbitrary: w)
  case Nil
  then show ?case by simp
next
  case (Cons j js)
  then obtain w1 b1 where s1: "clock_out 8 j (w, b) = Inr (w1, b1)"
      and rest: "clock_out_each js (w1, b1) = Inr (w', b')"
    by (auto split: sum.splits)
  have "bytearray_get b j = Inr 0" "b1 = b"
    using clock_out_byte_done [OF s1] by simp_all
  then show ?case
    using Cons.IH [of w1] rest by simp
qed

lemma clock_out_each_nonzero:
  "\<forall>j\<in>set js. \<exists>v. bytearray_get b j = Inr v \<Longrightarrow>
   \<exists>j\<in>set js. bytearray_get b j \<noteq> Inr 0 \<Longrightarrow>
   \<exists>w' b'. clock_out_each js (w, b) = Inl (ValueError, w', b')"
proof (induction js arbitrary: w)
  case Nil
  then show ?case by simp
next
  case (Cons j js)
  then obtain v where v: "bytearray_get b j = Inr v" by auto
  show ?case
  proof (cases "v = 0")
    case True
    then obtain w1 where w1: "clock_out 8 j (w, b) = Inr (w1, b)"
      using clock_out_zero [of b j 8 w] v by auto
    have "\<exists>k\<in>set js. bytearray_get b k \<noteq> Inr 0"
      using Cons.prems(2) v True by auto
    then obtain w' b' where "clock_out_each js (w1, b) = Inl (ValueError, w', b')"
      using Cons.IH [of w1] Cons.prems(1) by auto
    then show ?thesis using w1 by simp
  next
    case False
    then obtain w' b' where "clock_out 8 j (w, b) = Inl (ValueError, w', b')"
      using clock_out_byte_nonzero [OF v False, of w] by auto
    then show ?thesis by simp
  qed
qed

lemma clock_out_each_first_nonzero:
  "\<forall>j\<in>set pre. bytearray_get b j = Inr 0 \<Longrightarrow> bytearray_get b i = Inr v \<Longrightarrow>
   0 < v \<Longrightarrow> v \<le> 255 \<Longrightarrow>
   \<exists>w' b' u. clock_out_each (pre @ i # rest) (w, b) = Inl (ValueError, w', b') \<and>
     bytearray_get b' i = Inr u \<and> 128 \<le> u \<and> u \<le> 255 \<and> length b' = length b"
proof (induction pre arbitrary: w)
  case Nil
  obtain w' b' u where "clock_out 8 i (w, b) = Inl (ValueError, w', b')"
      "bytearray_get b' i = Inr u" "128 \<le> u" "u \<le> 255" "length b' = length b"
    using clock_out_byte_top_bit [OF Nil.prems(2-4), of w] by blast
  then show ?case by simp
next
  case (Cons j pre)
  then obtain w1 where w1: "clock_out 8 j (w, b) = Inr (w1, b)"
    using clock_out_zero [of b j 8 w] by auto
  have "\<forall>k\<in>set pre. bytearray_get b k = Inr 0" using Cons.prems(1) by simp
  from Cons.IH [OF this Cons.prems(2-4), of w1] show ?case
    using w1 by simp
qed

lemma py_range_split:
  "start \<le> i \<Longrightarrow> i < stop \<Longrightarrow>
   py_range start stop 1 = py_range start i 1 @ i # py_range (i + 1) stop 1"
proof (induction start stop "1::int" rule: py_range.induct)
  case (1 start stop)
  show ?case
  proof (cases "start = i")
    case True
    have "py_range i i 1 = []" by (subst py_range.simps) simp
    moreover have "py_range i stop 1 = i # py_range (i + 1) stop 1"
      using "1.prems" by (subst py_range.simps) simp
    ultimately show ?thesis using True by simp
  next
    case False
    then have lt: "start < i" "start < stop" using "1.prems" by simp_all
    have a: "py_range start stop 1 = start # py_range (start + 1) stop 1"
      using lt by (subst py_range.simps) simp
    have b: "py_range start i 1 = start # py_range (start + 1) i 1"
      using lt by (subst py_range.simps) simp
    have "py_range (start + 1) stop 1 = py_range (start + 1) i 1 @ i # py_range (i + 1) stop 1"
      using "1.hyps" lt "1.prems" by simp
    then show ?thesis by (simp add: a b)
  qed
qed

lemma ds_writebytes_range:
  assumes "stop \<noteq> - 1"
  shows "DotStar_ds_writebytes (w, b) start stop = clock_out_each (py_range start stop 1) (w, b)"
  using assms by (simp add: DotStar_ds_writebytes_def)

lemma show_nonzero_byte:
  assumes "\<not> self_spi s" "show_buf s = Inr b" "0 \<le> line * self_n s"
    "(line + 1) * self_n s \<le> int (length b)"
    "line * self_n s \<le> i" "i < (line + 1) * self_n s" "b ! nat i \<noteq> 0"
  shows "\<exists>s'. DotStar_show s line = Inl (ValueError, s')"
proof -
  define a where "a = line * self_n s"
  define c where "c = (line + 1) * self_n s"
  note ac = a_def [symmetric] c_def [symmetric]
  have c: "c \<noteq> - 1" using assms(3,5,6) by (simp add: ac)
  have inside: "\<forall>j\<in>set (py_range a c 1). \<exists>v. bytearray_get b j = Inr v"
    using assms(3,4) by (simp add: py_range_unit ac bytearray_get_inside)
  have "i \<in> set (py_range a c 1)"
    using assms(5,6) by (simp add: py_range_unit ac)
  moreover have "bytearray_get b i \<noteq> Inr 0"
    using assms(3-7) by (simp add: ac bytearray_get_inside)
  ultimately have "\<exists>j\<in>set (py_range a c 1). bytearray_get b j \<noteq> Inr 0" by blast
  from clock_out_each_nonzero [OF inside this, of "pins s"]
  obtain w' b' where "clock_out_each (py_range a c 1) (pins s, b) = Inl (ValueError, w', b')"
    by blast
  then have "DotStar_ds_writebytes (pins s, b) a c = Inl (ValueError, w', b')"
    using c by (simp add: ds_writebytes_range)
  then show ?thesis
    using assms(1,2) by (simp add: DotStar_show_def ac)
qed

lemma show_done_zero:
  assumes "\<not> self_spi s" "DotStar_show s line = Inr s'"
  shows "\<exists>b. show_buf s = Inr b \<and>
           (\<forall>i. line * self_n s \<le> i \<and> i < (line + 1) * self_n s \<longrightarrow> bytearray_get b i = Inr 0)"
proof -
  define a where "a = line * self_n s"
  define c where "c = (line + 1) * self_n s"
  note ac = a_def [symmetric] c_def [symmetric]
  obtain b where b: "show_buf s = Inr b"
    using assms(2) by (cases "show_buf s") (simp_all add: DotStar_show_def)
  obtain w' b' where w: "DotStar_ds_writebytes (pins s, b) a c = Inr (w', b')"
    using assms b by (cases "DotStar_ds_writebytes (pins s, b) a c")
      (auto simp: DotStar_show_def ac)
  define c' where "c' = (if c = - 1 then int (length b) else c)"
  have "clock_out_each (py_range a c' 1) (pins s, b) = Inr (w', b')"
    using w by (cases "c = - 1") (simp_all add: DotStar_ds_writebytes_def c'_def)
  then have z: "\<forall>j\<in>set (py_range a c' 1). bytearray_get b j = Inr 0"
    using clock_out_each_done by blast
  have "c \<le> c'" by (simp add: c'_def)
  then have "\<forall>i. a \<le> i \<and> i < c \<longrightarrow> bytearray_get b i = Inr 0"
    using z by (simp add: py_range_unit)
  then show ?thesis using b by (simp add: ac)
qed

lemma show_live_buffer:
  assumes "\<not> self_spi s" "1 \<le> self_brightness s"
  shows "self_buf (outcome_state (DotStar_show s line)) =
         written_buf (DotStar_ds_writebytes (pins s, self_buf s)
            (line * self_n s) ((line + 1) * self_n s))"
proof -
  have b: "show_buf s = Inr (self_buf s)"
    using assms(2) by (simp add: show_buf_def)
  show ?thesis
  proof (cases "DotStar_ds_writebytes (pins s, self_buf s) (line * self_n s) ((line + 1) * self_n s)")
    case (Inl x)
    obtain e w b' where "x = (e, w, b')" by (cases x)
    then show ?thesis
      using Inl b assms by (simp add: DotStar_show_def after_writebytes_def)
  next
    case (Inr x)
    obtain w b' where "x = (w, b')" by (cases x)
    then show ?thesis
      using Inr b assms by (simp add: DotStar_show_def after_writebytes_def)
  qed
qed

lemma show_copy_keeps_buffer:
  assumes "self_brightness s < 1"
  shows "self_buf (outcome_state (DotStar_show s line)) = self_buf s"
  using assms
  by (auto simp: DotStar_show_def after_writebytes_def split: sum.splits)

lemma show_shifts_first_nonzero:
  assumes "\<not> self_spi s" "1 \<le> self_brightness s" "0 \<le> line * self_n s"
    "(line + 1) * self_n s \<le> int (length (self_buf s))"
    "line * self_n s \<le> i" "i < (line + 1) * self_n s"
    "\<forall>j. line * self_n s \<le> j \<and> j < i \<longrightarrow> self_buf s ! nat j = 0"
    "0 < self_buf s ! nat i" "self_buf s ! nat i < 128"
  shows "\<exists>s'. DotStar_show s line = Inl (ValueError, s') \<and>
              128 \<le> self_buf s' ! nat i \<and> self_buf s' ! nat i \<le> 255"
proof -
  define a where "a = line * self_n s"
  define c where "c = (line + 1) * self_n s"
  define b where "b = self_buf s"
  note ac = a_def [symmetric] c_def [symmetric] b_def [symmetric]
  have sb: "show_buf s = Inr b"
    using assms(2) by (simp add: show_buf_def b_def)
  have c: "c \<noteq> - 1" using assms(3,5,6) by (simp add: ac)
  have split: "py_range a c 1 = py_range a i 1 @ i # py_range (i + 1) c 1"
    using assms(5,6) by (simp add: py_range_split ac)
  have pre: "\<forall>j\<in>set (py_range a i 1). bytearray_get b j = Inr 0"
    using assms(3,4,6,7) by (simp add: py_range_unit ac bytearray_get_inside)
  have at: "bytearray_get b i = Inr (b ! nat i)"
    using assms(3-6) by (simp add: ac bytearray_get_inside)
  have v: "0 < b ! nat i" "b ! nat i \<le> 255"
    using assms(8,9) by (simp_all add: ac)
  from clock_out_each_first_nonzero [OF pre at v, of "py_range (i + 1) c 1" "pins s"]
  obtain w' b' u where r: "clock_out_each (py_range a c 1) (pins s, b) = Inl (ValueError, w', b')"
      "bytearray_get b' i = Inr u" "128 \<le> u" "u \<le> 255" "length b' = length b"
    unfolding split by blast
  have "bytearray_get b' i = Inr (b' ! nat i)"
    using assms(3-6) r(5) by (simp add: ac bytearray_get_inside)
  then have u: "b' ! nat i = u" using r(2) by simp
  have "DotStar_ds_writebytes (pins s, b) a c = Inl (ValueError, w', b')"
    using c r(1) by (simp add: ds_writebytes_range)
  then have "DotStar_show s line = Inl (ValueError, after_writebytes s w' b')"
    using assms(1) sb by (simp add: DotStar_show_def ac)
  moreover have "self_buf (after_writebytes s w' b') = b'"
    using assms(2) by (simp add: after_writebytes_def)
  ultimately show ?thesis using u r(3,4) by simp
qed

lemma two_lines_of_six_constructed:
  "DotStar_init False 6 2 1 False BGR = Inr two_lines_of_six"
  by code_simp

lemma red_pixel_on_two_lines_eq:
  "DotStar_set_item two_lines_of_six 0 (Triple 1 0 0) = Inr red_pixel_on_two_lines"
  by code_simp

lemma red_pixel_fields:
  "self_spi red_pixel_on_two_lines = False"
  "self_n red_pixel_on_two_lines = 6"
  "self_brightness red_pixel_on_two_lines = 1"
  "length (self_buf red_pixel_on_two_lines) = 58"
  "self_buf red_pixel_on_two_lines ! 6 = 0"
  "self_buf red_pixel_on_two_lines ! 7 = 1"
  by code_simp+

lemma one_pixel_shown: "DotStar_show (one_pixel False 1 BGR) 0 = Inr (one_pixel False 1 BGR)"
  by code_simp

text \<open>
  Claim C10. On the bit-banged path (no SPI peripheral) \<^verbatim>\<open>show(line)\<close> shifts every
  transmitted byte left in place, eight times. Hence, with the transmitted range
  \<open>line * n \<le> i < (line + 1) * n\<close> inside the buffer: a nonzero byte in the range makes
  \<^verbatim>\<open>show\<close> raise \<open>ValueError\<close>; a \<^verbatim>\<open>show\<close> that returns has read zero at every index of the
  range; at brightness 1 and above the buffer that is shifted is the strip's own, so the
  strip is left with what \<^verbatim>\<open>_ds_writebytes\<close> made of it, and the first nonzero byte of
  the range, when below 128, has been shifted up to a value of 128 or more; below
  brightness 1 the strip's buffer stays as it was.
\<close>

theorem manual_show_shifts_bytes:
  assumes "\<not> self_spi s"
  shows
    "(show_buf s = Inr b \<and> 0 \<le> line * self_n s \<and> (line + 1) * self_n s \<le> int (length b) \<and>
      line * self_n s \<le> i \<and> i < (line + 1) * self_n s \<and> b ! nat i \<noteq> 0 \<longrightarrow>
        (\<exists>s'. DotStar_show s line = Inl (ValueError, s'))) \<and>
     (DotStar_show s line = Inr t \<longrightarrow>
        (\<exists>c. show_buf s = Inr c \<and>
           (\<forall>j. line * self_n s \<le> j \<and> j < (line + 1) * self_n s \<longrightarrow> bytearray_get c j = Inr 0))) \<and>
     (1 \<le> self_brightness s \<longrightarrow>
        self_buf (outcome_state (DotStar_show s line)) =
          written_buf (DotStar_ds_writebytes (pins s, self_buf s)
            (line * self_n s) ((line + 1) * self_n s))) \<and>
     (self_brightness s < 1 \<longrightarrow> self_buf (outcome_state (DotStar_show s line)) = self_buf s) \<and>
     (1 \<le> self_brightness s \<and> 0 \<le> line * self_n s \<and>
      (line + 1) * self_n s \<le> int (length (self_buf s)) \<and>
      line * self_n s \<le> k \<and> k < (line + 1) * self_n s \<and>
      (\<forall>j. line * self_n s \<le> j \<and> j < k \<longrightarrow> self_buf s ! nat j = 0) \<and>
      0 < self_buf s ! nat k \<and> self_buf s ! nat k < 128 \<longrightarrow>
        (\<exists>s'. DotStar_show s line = Inl (ValueError, s') \<and>
              128 \<le> self_buf s' ! nat k \<and> self_buf s' ! nat k \<le> 255))"
proof (intro conjI impI)
  assume "show_buf s = Inr b \<and> 0 \<le> line * self_n s \<and> (line + 1) * self_n s \<le> int (length b) \<and>
      line * self_n s \<le> i \<and> i < (line + 1) * self_n s \<and> b ! nat i \<noteq> 0"
  then show "\<exists>s'. DotStar_show s line = Inl (ValueError, s')"
    using show_nonzero_byte [OF assms, of b line i] by blast
next
  assume "DotStar_show s line = Inr t"
  then show "\<exists>c. show_buf s = Inr c \<and>
           (\<forall>j. line * self_n s \<le> j \<and> j < (line + 1) * self_n s \<longrightarrow> bytearray_get c j = Inr 0)"
    by (rule show_done_zero [OF assms])
next
  assume "1 \<le> self_brightness s"
  then show "self_buf (outcome_state (DotStar_show s line)) =
          written_buf (DotStar_ds_writebytes (pins s, self_buf s)
            (line * self_n s) ((line + 1) * self_n s))"
    by (rule show_live_buffer [OF assms])
next
  assume "self_brightness s < 1"
  then show "self_buf (outcome_state (DotStar_show s line)) = self_buf s"
    by (rule show_copy_keeps_buffer)
next
  assume "1 \<le> self_brightness s \<and> 0 \<le> line * self_n s \<and>
      (line + 1) * self_n s \<le> int (length (self_buf s)) \<and>
      line * self_n s \<le> k \<and> k < (line + 1) * self_n s \<and>
      (\<forall>j. line * self_n s \<le> j \<and> j < k \<longrightarrow> self_buf s ! nat j = 0) \<and>
      0 < self_buf s ! nat k \<and> self_buf s ! nat k < 128"
  then show "\<exists>s'. DotStar_show s line = Inl (ValueError, s') \<and>
              128 \<le> self_buf s' ! nat k \<and> self_buf s' ! nat k \<le> 255"
    using show_shifts_first_nonzero [OF assms, of line k] by blast
qed

theorem manual_show_shifts_bytes_witness:
  "DotStar_init False 6 2 1 False BGR = Inr two_lines_of_six \<and>
   DotStar_set_item two_lines_of_six 0 (Triple 1 0 0) = Inr red_pixel_on_two_lines \<and>
   self_buf red_pixel_on_two_lines ! 7 = 1 \<and>
   (\<exists>s'. DotStar_show red_pixel_on_two_lines 1 = Inl (ValueError, s') \<and>
         128 \<le> self_buf s' ! 7 \<and> self_buf s' ! 7 \<le> 255) \<and>
   self_buf (outcome_state (DotStar_show red_pixel_on_two_lines 1)) =
     written_buf (DotStar_ds_writebytes (pins red_pixel_on_two_lines, self_buf red_pixel_on_two_lines) 6 12) \<and>
   DotStar_show (one_pixel False 1 BGR) 0 = Inr (one_pixel False 1 BGR) \<and>
   (\<exists>c. show_buf (one_pixel False 1 BGR) = Inr c \<and> bytearray_get c 0 = Inr 0) \<and>
   self_buf (outcome_state (DotStar_show (one_pixel False (1 / 2) BGR) 4)) =
     self_buf (one_pixel False (1 / 2) BGR)"
proof -
  let ?s = red_pixel_on_two_lines
  have manual: "\<not> self_spi ?s" by (simp add: red_pixel_fields)
  have sb: "show_buf ?s = Inr (self_buf ?s)"
    by (simp add: show_buf_def red_pixel_fields)
  have zeros: "\<forall>j. 1 * self_n ?s \<le> j \<and> j < 7 \<longrightarrow> self_buf ?s ! nat j = 0"
  proof (intro allI impI)
    fix j :: int assume "1 * self_n ?s \<le> j \<and> j < 7"
    then have "j = 6" by (simp add: red_pixel_fields)
    then show "self_buf ?s ! nat j = 0" by (simp add: red_pixel_fields)
  qed
  note T = manual_show_shifts_bytes [OF manual, of "self_buf ?s" 1 7 ?s 7]
  have w1: "\<exists>s'. DotStar_show ?s 1 = Inl (ValueError, s')"
    using T sb by (simp add: red_pixel_fields)
  have w3: "self_buf (outcome_state (DotStar_show ?s 1)) =
     written_buf (DotStar_ds_writebytes (pins ?s, self_buf ?s) 6 12)"
    using T by (simp add: red_pixel_fields)
  have w4: "\<exists>s'. DotStar_show ?s 1 = Inl (ValueError, s') \<and>
         128 \<le> self_buf s' ! 7 \<and> self_buf s' ! 7 \<le> 255"
    using T zeros by (simp add: red_pixel_fields)
  have m1: "\<not> self_spi (one_pixel False 1 BGR)" by (simp add: one_pixel_def)
  have "\<exists>c. show_buf (one_pixel False 1 BGR) = Inr c \<and>
           (\<forall>j. 0 * self_n (one_pixel False 1 BGR) \<le> j \<and> j < (0 + 1) * self_n (one_pixel False 1 BGR) \<longrightarrow>
              bytearray_get c j = Inr 0)"
    using manual_show_shifts_bytes [OF m1, of _ 0 _ "one_pixel False 1 BGR"] one_pixel_shown
    by blast
  then have w2: "\<exists>c. show_buf (one_pixel False 1 BGR) = Inr c \<and> bytearray_get c 0 = Inr 0"
    by (auto simp: one_pixel_def)
  have m2: "\<not> self_spi (one_pixel False (1 / 2) BGR)" by (simp add: one_pixel_def)
  have w5: "self_buf (outcome_state (DotStar_show (one_pixel False (1 / 2) BGR) 4)) =
     self_buf (one_pixel False (1 / 2) BGR)"
    using manual_show_shifts_bytes [OF m2, of _ 4] by (simp add: one_pixel_def)
  show ?thesis
    using two_lines_of_six_constructed red_pixel_on_two_lines_eq red_pixel_fields(6)
      w1 w2 w3 w4 w5 one_pixel_shown
    by simp
qed

section \<open>What the write paths do guarantee\<close>

text \<open>A pixel write keeps the strip well formed, and under the default \<open>BGR\<close> order a
  colour triple of bytes written at an index of the strip is read back unchanged.\<close>

lemma store_item_length:
  "store_item b j c k = Inr b' \<Longrightarrow> length b' = length b"
  by (auto simp: store_item_def split: sum.splits dest: bytearray_set_length)

lemma set_item_keeps_ok:
  assumes "strip_ok s"
  shows "strip_ok (outcome_state (DotStar_set_item s i val))"
proof -
  have "strip_ok (s\<lparr>self_buf := b\<rparr>)" if "length b = length (self_buf s)" for b
    using assms that by (simp add: strip_ok_def)
  then show ?thesis
    using assms
    by (auto simp: DotStar_set_item_def Let_def split: sum.splits prod.splits
        dest!: bytearray_set_length store_item_length)
qed

lemma roundtrip_BGR:
  assumes "strip_ok s" "pixel_order s = BGR" "0 \<le> i" "i < self_n s"
    and "0 \<le> r" "r \<le> 255" "0 \<le> g" "g \<le> 255" "0 \<le> b" "b \<le> 255"
  shows "\<exists>s'. DotStar_set_item s i (Triple r g b) = Inr s' \<and>
              DotStar_getitem s' i = Inr (r, g, b)"
proof -
  define off where "off = i * 4 + 4"
  have room: "off + 3 < int (length (self_buf s))" "0 \<le> off"
    using strip_ok_room [OF assms(1)] assms(3,4) by (simp_all add: off_def)
  define hv where "hv = brightness_byte 1 OR LED_START"
  have hv: "0 \<le> hv" "hv \<le> 255"
    using header_value_range [of 1] unfolding hv_def by linarith+
  define b3 where
    "b3 = (self_buf s)[nat off := hv, nat (off + 1) := b, nat (off + 2) := g, nat (off + 3) := r]"
  have set: "DotStar_set_item s i (Triple r g b) = Inr (s\<lparr>self_buf := b3\<rparr>)"
    using assms room hv
    by (simp add: DotStar_set_item_def BGR_def START_HEADER_SIZE_def off_def [symmetric]
        hv_def [symmetric] bytearray_set_inside store_item_def b3_def)
  have len: "length b3 = length (self_buf s)" by (simp add: b3_def)
  have vals: "b3 ! nat (off + 3) = r" "b3 ! nat (off + 2) = g" "b3 ! nat (off + 1) = b"
    using room by (simp_all add: b3_def nat_add_distrib)
  have ok': "strip_ok (s\<lparr>self_buf := b3\<rparr>)"
    using assms(1) len by (simp add: strip_ok_def)
  have "DotStar_getitem (s\<lparr>self_buf := b3\<rparr>) i =
      Inr (b3 ! nat (i * 4 + 7), b3 ! nat (i * 4 + 6), b3 ! nat (i * 4 + 5))"
    using getitem_inside [OF ok', of i] assms(3,4) by simp
  moreover have "i * 4 + 7 = off + 3" "i * 4 + 6 = off + 2" "i * 4 + 5 = off + 1"
    by (simp_all add: off_def)
  ultimately show ?thesis using set vals by simp
qed

text \<open>For a positive step over \<open>start \<le> stop\<close> the length that \<^verbatim>\<open>__setitem__\<close> computes is
  the number of indices of the slice; a list of another length is refused before any
  store; two colours over \<^verbatim>\<open>[0:4:2]\<close> set pixels 0 and 2.\<close>

lemma py_range_length:
  "0 < step \<Longrightarrow>
   int (length (py_range start stop step)) = max 0 ((stop - start + step - 1) div step)"
proof (induction start stop step rule: py_range.induct)
  case (1 start stop step)
  show ?case
  proof (cases "start < stop")
    case True
    have unfold: "py_range start stop step = start # py_range (start + step) stop step"
      using True "1.prems" by (subst py_range.simps) simp
    define q where "q = (stop - (start + step) + step - 1) div step"
    have ih: "int (length (py_range (start + step) stop step)) = max 0 q"
      using "1.IH" True "1.prems" by (simp add: q_def)
    have "(stop - start + step - 1) div step = (stop - (start + step) + step - 1 + step) div step"
      by (simp add: algebra_simps)
    also have "\<dots> = q + 1"
      using "1.prems" unfolding q_def by (simp only: div_add_self2)
    finally have eq: "(stop - start + step - 1) div step = q + 1" .
    have "0 \<le> (stop - (start + step) + step - 1)" using True by simp
    then have "0 \<le> q"
      using "1.prems" unfolding q_def by (simp only: pos_imp_zdiv_nonneg_iff)
    then show ?thesis
      unfolding eq unfold using ih by simp
  next
    case False
    have "py_range start stop step = []"
      using False "1.prems" by (subst py_range.simps) simp
    moreover have "stop - start + step - 1 \<le> step - 1" using False by simp
    then have "(stop - start + step - 1) div step \<le> (step - 1) div step"
      using "1.prems" by (rule zdiv_mono1)
    then have "(stop - start + step - 1) div step \<le> 0"
      using "1.prems" by (simp add: div_pos_pos_trivial)
    ultimately show ?thesis by simp
  qed
qed

lemma slice_length_counts:
  assumes "0 < step" "start \<le> stop"
  shows "slice_length start stop step = int (length (py_range start stop step))"
proof -
  have "0 \<le> stop - start + step - 1" using assms by simp
  then have "0 \<le> (stop - start + step - 1) div step"
    using assms(1) by (simp only: pos_imp_zdiv_nonneg_iff)
  then show ?thesis
    using assms(1) py_range_length [OF assms(1), of start stop]
    by (simp add: slice_length_def)
qed

lemma setitem_slice_refused:
  assumes "slice_indices sl (self_n s) = Inr (start, stop, step)"
    and "int (length val) \<noteq> slice_length start stop step"
  shows "DotStar_setitem_slice s sl val = Inl (ValueError, s)"
  using assms by (simp add: DotStar_setitem_slice_def)

lemma setitem_slice_step_two:
  "DotStar_setitem_slice four_pixels (Some 0, Some 4, Some 2) [Triple 1 2 3, Triple 4 5 6] =
     Inr (four_pixels\<lparr>self_buf :=
       [0, 0, 0, 0, 255, 3, 2, 1, 255, 0, 0, 0, 255, 6, 5, 4, 255, 0, 0, 255, 0]\<rparr>)"
  by code_simp

section \<open>Runs of the source that contradict the specification\<close>

text \<open>
  Claim C1 fails on the code. \<^verbatim>\<open>_set_item\<close> stores the channels in the configured order,
  \<^verbatim>\<open>__getitem__\<close> always reads them back in reverse storage order, which undoes the
  permutation for \<open>BGR\<close> only: writing (10, 20, 30) and reading it back gives
  (30, 20, 10) under \<open>RGB\<close>, and a permuted triple under every order but \<open>BGR\<close>.
\<close>

theorem getitem_ignores_pixel_order:
  "DotStar_init True 1 1 1 False RGB = Inr (one_pixel True 1 RGB) \<and>
   DotStar_setitem (one_pixel True 1 RGB) 0 (Triple 10 20 30) =
     Inr ((one_pixel True 1 RGB)\<lparr>self_buf := [0, 0, 0, 0, 255, 10, 20, 30, 0]\<rparr>) \<and>
   DotStar_getitem ((one_pixel True 1 RGB)\<lparr>self_buf := [0, 0, 0, 0, 255, 10, 20, 30, 0]\<rparr>) 0 =
     Inr (30, 20, 10) \<and>
   DotStar_getitem (outcome_state (DotStar_setitem (one_pixel True 1 RBG) 0 (Triple 10 20 30))) 0 =
     Inr (20, 30, 10) \<and>
   DotStar_getitem (outcome_state (DotStar_setitem (one_pixel True 1 GRB) 0 (Triple 10 20 30))) 0 =
     Inr (30, 10, 20) \<and>
   DotStar_getitem (outcome_state (DotStar_setitem (one_pixel True 1 GBR) 0 (Triple 10 20 30))) 0 =
     Inr (10, 30, 20) \<and>
   DotStar_getitem (outcome_state (DotStar_setitem (one_pixel True 1 BRG) 0 (Triple 10 20 30))) 0 =
     Inr (20, 10, 30) \<and>
   DotStar_getitem (outcome_state (DotStar_setitem (one_pixel True 1 BGR) 0 (Triple 10 20 30))) 0 =
     Inr (10, 20, 30)"
  by code_simp

text \<open>
  Claim C3 fails on the code. \<open>end_header_index\<close> is \<open>4 + 4 * n - end_header_size\<close>, so the
  loop that writes the end frame starts inside the last pixel frame: for one pixel set
  to (200, 100, 50) at brightness 0.5 the rendered colour bytes are 25, 50 and 255, the
  last one overwritten with \<open>0xFF\<close> instead of scaled to 100.
\<close>

theorem show_buf_overwrites_last_colour_byte:
  "DotStar_init True 1 1 (1 / 2) False BGR = Inr (one_pixel True (1 / 2) BGR) \<and>
   DotStar_setitem (one_pixel True (1 / 2) BGR) 0 (Triple 200 100 50) =
     Inr ((one_pixel True (1 / 2) BGR)\<lparr>self_buf := [0, 0, 0, 0, 255, 50, 100, 200, 0]\<rparr>) \<and>
   show_buf ((one_pixel True (1 / 2) BGR)\<lparr>self_buf := [0, 0, 0, 0, 255, 50, 100, 200, 0]\<rparr>) =
     Inr [0, 0, 0, 0, 255, 25, 50, 255, 255]"
  by code_simp

text \<open>
  Claim C7 fails on the code. The length that \<^verbatim>\<open>__setitem__\<close> compares with is right for a
  positive step over a non-empty range only: three colours for the three indices of
  \<^verbatim>\<open>[3:0:-1]\<close> are refused, three colours for the single index of \<^verbatim>\<open>[1:0:-1]\<close> are
  accepted (one pixel is written), and no colours for the empty \<^verbatim>\<open>[3:1]\<close> are refused.
\<close>

theorem slice_length_check_misjudges_negative_step:
  "DotStar_init True 4 1 1 False BGR = Inr four_pixels \<and>
   slice_indices (Some 3, Some 0, Some (- 1)) 4 = Inr (3, 0, - 1) \<and>
   py_range 3 0 (- 1) = [3, 2, 1] \<and>
   DotStar_setitem_slice four_pixels (Some 3, Some 0, Some (- 1))
       [Triple 1 1 1, Triple 2 2 2, Triple 3 3 3] = Inl (ValueError, four_pixels) \<and>
   py_range 1 0 (- 1) = [1] \<and>
   DotStar_setitem_slice four_pixels (Some 1, Some 0, Some (- 1))
       [Triple 1 1 1, Triple 2 2 2, Triple 3 3 3] =
     Inr (four_pixels\<lparr>self_buf :=
       [0, 0, 0, 0, 255, 0, 0, 0, 255, 1, 1, 1, 255, 0, 0, 0, 255, 0, 0, 255, 0]\<rparr>) \<and>
   py_range 3 1 1 = [] \<and>
   DotStar_setitem_slice four_pixels (Some 3, Some 1, None) [] = Inl (ValueError, four_pixels)"
  by code_simp

text \<open>
  Claim C9 fails on the code. Line \<open>j\<close> is initialised from offset \<open>j * n\<close>, inside the frame
  of the line before: with one pixel and two lines, the start frame of line 1 clears the
  header byte of line 0 at offset 4, and the second half of the buffer is never written.
  With a single line the end-frame byte at offset 8 stays zero and the \<open>0xFF\<close> meant for it
  lands on the last colour byte at offset 7.
\<close>

theorem init_lines_overlap:
  "DotStar_init True 1 2 1 False BGR =
     Inr \<lparr>self_spi = True, self_line = 2, self_n = 1, end_header_size = 1,
          end_header_index = 7,
          self_buf = [0, 0, 0, 0, 0, 255, 0, 255, 255, 0, 0, 0, 0, 0, 0, 0, 0, 0],
          pixel_order = BGR, self_brightness = 1, auto_write = False,
          pins = \<lparr>cpin = False, dpin = False\<rparr>\<rparr> \<and>
   DotStar_init True 1 1 1 False BGR =
     Inr \<lparr>self_spi = True, self_line = 1, self_n = 1, end_header_size = 1,
          end_header_index = 7,
          self_buf = [0, 0, 0, 0, 255, 0, 0, 255, 0],
          pixel_order = BGR, self_brightness = 1, auto_write = False,
          pins = \<lparr>cpin = False, dpin = False\<rparr>\<rparr>"
  by code_simp

end
